theory Spec2Isabelle
  imports Complex_Main "HOL-Library.Log_Nat"
begin

section \<open>Day 9: largest rectangle inside a rectilinear polygon\<close>

text \<open>
  The embedding follows the day 9 solver function by function. Coordinates of the input
  points are integers (the puzzle input), so \<open>Point\<close>, \<open>Range\<close> and the two edge types
  carry \<open>int\<close> fields. The y-levels the solver queries also contain the midpoints
  \<open>(y + nextY) / 2\<close> and the shifted levels \<open>y + 0.5\<close>, \<open>y - 0.5\<close>; these are
  \<open>rat\<close>. The fields \<open>x\<close>, \<open>y\<close>, \<open>start\<close>, \<open>end\<close> of the source are prefixed by
  the first letter of their type, since \<open>end\<close> is reserved and \<open>x\<close>, \<open>y\<close> would
  capture the variables of every statement.
\<close>

subsection \<open>Numbers\<close>

text \<open>
  A \<open>number\<close> of the source is an IEEE 754 binary64 value: every sum, difference,
  product and quotient is the exact result rounded to 53 significant bits, to the nearest
  representable value, a tie going to the one whose last bit is zero. \<open>binaryExponent x\<close>
  is the \<open>b\<close> with \<open>2^(b-1) \<le> |x| < 2^b\<close>, \<open>unitOf b\<close> the spacing \<open>2^(b-53)\<close> of the
  representable values of that size, \<open>nearestEven t\<close> the integer nearest to \<open>t\<close>, the
  even one of the two when \<open>t\<close> lies halfway. The exponent is not bounded here: the overflow to
  \<open>Infinity\<close> above \<open>2^1024\<close> and the subnormal values below \<open>2^-1022\<close> are outside
  the model. Comparisons, \<open>Math.min\<close>, \<open>Math.max\<close> and \<open>Math.abs\<close> are exact, and
  the sign of a rounded difference is the sign of the exact one, so the numeric sorts
  order by value.
\<close>

definition binaryExponent :: "rat \<Rightarrow> int" where
  "binaryExponent x =
     (if 1 \<le> \<bar>x\<bar> then bitlen \<lfloor>\<bar>x\<bar>\<rfloor> else 1 - bitlen (\<lceil>1 / \<bar>x\<bar>\<rceil> - 1))"

definition unitOf :: "int \<Rightarrow> rat" where
  "unitOf b = (if 53 \<le> b then 2 ^ nat (b - 53) else 1 / 2 ^ nat (53 - b))"

definition nearestEven :: "rat \<Rightarrow> int" where
  "nearestEven t =
     (let q = \<lfloor>t\<rfloor>;
          r = t - of_int q
      in if r < 1 / 2 then q
         else if 1 / 2 < r then q + 1
         else if even q then q
         else q + 1)"

definition roundToUnit :: "rat \<Rightarrow> rat \<Rightarrow> rat" where
  "roundToUnit u x = of_int (nearestEven (x / u)) * u"

definition roundNumber :: "rat \<Rightarrow> rat" where
  "roundNumber x = (if x = 0 then 0 else roundToUnit (unitOf (binaryExponent x)) x)"


text \<open>The rounding of an integer result is again an integer.\<close>

definition roundInt :: "int \<Rightarrow> int" where
  "roundInt n = \<lfloor>roundNumber (of_int n)\<rfloor>"

subsection \<open>Data\<close>

record Point =
  px :: int
  py :: int

record Range =
  rstart :: int
  rend :: int

record HorizontalEdge =
  hy :: int
  hx1 :: int
  hx2 :: int

record VerticalEdge =
  vx :: int
  vy1 :: int
  vy2 :: int

type_synonym CoverageCache = "rat \<rightharpoonup> Range list"

text \<open>
  Reading \<open>arr[i]\<close> in the source gives \<open>undefined\<close> outside the array; every loop
  of the solver tests for it.
\<close>

definition at_index :: "'a list \<Rightarrow> nat \<Rightarrow> 'a option" where
  "at_index arr i = (if i < length arr then Some (arr ! i) else None)"

subsection \<open>area and part1\<close>

definition area :: "Point \<Rightarrow> Point \<Rightarrow> int" where
  "area p1 p2 =
     roundInt (roundInt (\<bar>roundInt (px p2 - px p1)\<bar> + 1)
               * roundInt (\<bar>roundInt (py p2 - py p1)\<bar> + 1))"

definition part1_pair :: "Point list \<Rightarrow> nat \<Rightarrow> int \<Rightarrow> nat \<Rightarrow> int" where
  "part1_pair points i maxArea j =
     (case (at_index points i, at_index points j) of
        (Some p1, Some p2) \<Rightarrow>
          (let currentArea = area p1 p2
           in if currentArea > maxArea then currentArea else maxArea)
      | _ \<Rightarrow> maxArea)"

definition part1_row :: "Point list \<Rightarrow> int \<Rightarrow> nat \<Rightarrow> int" where
  "part1_row points maxArea i = foldl (part1_pair points i) maxArea [i + 1 ..< length points]"

definition part1 :: "Point list \<Rightarrow> int" where
  "part1 points = foldl (part1_row points) 0 [0 ..< length points]"

subsection \<open>Scanline coverage\<close>

function getInteriorAtY_loop :: "int list \<Rightarrow> nat \<Rightarrow> Range list \<Rightarrow> Range list" where
  "getInteriorAtY_loop crossingXs i ranges =
     (if i < length crossingXs then
        (if i + 1 < length crossingXs then
           (case (at_index crossingXs i, at_index crossingXs (i + 1)) of
              (Some x1, Some x2) \<Rightarrow>
                getInteriorAtY_loop crossingXs (i + 2) (ranges @ [\<lparr>rstart = x1, rend = x2\<rparr>])
            | _ \<Rightarrow> getInteriorAtY_loop crossingXs (i + 2) ranges)
         else getInteriorAtY_loop crossingXs (i + 2) ranges)
      else ranges)"
  by pat_completeness auto
termination
  by (relation "measure (\<lambda>(crossingXs, i, ranges). length crossingXs - i)") auto

declare getInteriorAtY_loop.simps [simp del]

definition getInteriorAtY :: "rat \<Rightarrow> VerticalEdge list \<Rightarrow> Range list" where
  "getInteriorAtY y verticalEdges =
     (let crossingXs =
        sort (map vx (filter (\<lambda>e. of_int (vy1 e) < y \<and> of_int (vy2 e) > y) verticalEdges))
      in getInteriorAtY_loop crossingXs 0 [])"

text \<open>
  One iteration of the loop of \<open>mergeRanges\<close>: \<open>last\<close> is the final element of
  \<open>merged\<close> (undefined when \<open>merged\<close> is empty); the else branch overwrites its \<open>end\<close>
  in place.
\<close>

definition mergeRanges_step :: "Range list \<Rightarrow> Range \<Rightarrow> Range list" where
  "mergeRanges_step merged r =
     (if merged = [] \<or> rend (last merged) < rstart r
      then merged @ [\<lparr>rstart = rstart r, rend = rend r\<rparr>]
      else butlast merged @ [(last merged)\<lparr>rend := max (rend (last merged)) (rend r)\<rparr>])"

text \<open>
  \<open>Array.prototype.sort\<close> is stable, as is \<open>sort_key\<close>. It sorts the argument
  array in place; the only caller passes a freshly built array, and the ranges pushed to
  \<open>merged\<close> are new objects, so no array or range seen elsewhere is changed.
\<close>

definition mergeRanges :: "Range list \<Rightarrow> Range list" where
  "mergeRanges ranges =
     (if ranges = [] then []
      else foldl mergeRanges_step [] (sort_key rstart ranges))"

text \<open>
  The cache is threaded through: the result is the coverage and the cache after the call.
  A cached array is truthy even when empty, so every hit returns the cached value.
\<close>

definition getCoverageAtY ::
  "rat \<Rightarrow> Point list \<Rightarrow> VerticalEdge list \<Rightarrow> HorizontalEdge list \<Rightarrow> CoverageCache
     \<Rightarrow> Range list \<times> CoverageCache" where
  "getCoverageAtY y points verticalEdges horizontalEdges coverageCache =
     (case coverageCache y of
        Some cached \<Rightarrow> (cached, coverageCache)
      | None \<Rightarrow>
          (let eps = 1 / 2;
               isAtVertex = list_ex (\<lambda>p. of_int (py p) = y) points;
               coverage =
                 (if isAtVertex
                  then mergeRanges
                         (getInteriorAtY (roundNumber (y + eps)) verticalEdges
                          @ getInteriorAtY (roundNumber (y - eps)) verticalEdges
                          @ map (\<lambda>e. \<lparr>rstart = hx1 e, rend = hx2 e\<rparr>)
                              (filter (\<lambda>e. of_int (hy e) = y) horizontalEdges))
                  else getInteriorAtY y verticalEdges)
           in (coverage, coverageCache(y \<mapsto> coverage))))"

subsection \<open>Rectangle validation\<close>

text \<open>
  The binary search. When \<open>arr[mid]\<close> is undefined the source executes \<open>continue\<close>
  with \<open>lo\<close> and \<open>hi\<close> unchanged, so the loop never ends: the result is \<open>None\<close>.
  \<open>(lo + hi) >> 1\<close> is the halving of a non-negative index sum.
\<close>

partial_function (option) lowerBound_loop :: "rat list \<Rightarrow> rat \<Rightarrow> nat \<Rightarrow> nat \<Rightarrow> nat option" where
  "lowerBound_loop arr target lo hi =
     (if lo < hi then
        (case at_index arr ((lo + hi) div 2) of
           None \<Rightarrow> lowerBound_loop arr target lo hi
         | Some midValue \<Rightarrow>
             if midValue < target then lowerBound_loop arr target ((lo + hi) div 2 + 1) hi
             else lowerBound_loop arr target lo ((lo + hi) div 2))
      else Some lo)"

declare lowerBound_loop.simps [code]

definition lowerBound :: "rat list \<Rightarrow> rat \<Rightarrow> nat option" where
  "lowerBound arr target = lowerBound_loop arr target 0 (length arr)"

function isRectangleValid_loop ::
  "int \<Rightarrow> int \<Rightarrow> rat \<Rightarrow> rat list \<Rightarrow> Point list \<Rightarrow> VerticalEdge list \<Rightarrow> HorizontalEdge list
     \<Rightarrow> nat \<Rightarrow> CoverageCache \<Rightarrow> bool \<times> CoverageCache" where
  "isRectangleValid_loop minX maxX maxY ySamples points verticalEdges horizontalEdges i coverageCache =
     (if i < length ySamples \<and> ySamples ! i \<le> maxY then
        (case getCoverageAtY (ySamples ! i) points verticalEdges horizontalEdges coverageCache of
           (coverage, cache') \<Rightarrow>
             (let isCovered = list_ex (\<lambda>r. rstart r \<le> minX \<and> rend r \<ge> maxX) coverage
              in if \<not> isCovered then (False, cache')
                 else isRectangleValid_loop minX maxX maxY ySamples points verticalEdges
                        horizontalEdges (i + 1) cache'))
      else (True, coverageCache))"
  by pat_completeness auto
termination
  by (relation "measure (\<lambda>(minX, maxX, maxY, ySamples, points, vs, hs, i, c). length ySamples - i)")
    auto

declare isRectangleValid_loop.simps [simp del]

definition isRectangleValid ::
  "Point \<Rightarrow> Point \<Rightarrow> rat list \<Rightarrow> Point list \<Rightarrow> VerticalEdge list \<Rightarrow> HorizontalEdge list
     \<Rightarrow> CoverageCache \<Rightarrow> (bool \<times> CoverageCache) option" where
  "isRectangleValid p1 p2 ySamples points verticalEdges horizontalEdges coverageCache =
     (let minX = min (px p1) (px p2);
          maxX = max (px p1) (px p2);
          minY = min (py p1) (py p2);
          maxY = max (py p1) (py p2)
      in case lowerBound ySamples (of_int minY) of
           None \<Rightarrow> None
         | Some startIdx \<Rightarrow>
             Some (isRectangleValid_loop minX maxX (of_int maxY) ySamples points verticalEdges
                     horizontalEdges startIdx coverageCache))"

subsection \<open>part2\<close>

text \<open>The first loop of \<open>part2\<close>: one edge per consecutive pair of points, cyclically.\<close>

definition buildEdges_step ::
  "Point list \<Rightarrow> HorizontalEdge list \<times> VerticalEdge list \<Rightarrow> nat
     \<Rightarrow> HorizontalEdge list \<times> VerticalEdge list" where
  "buildEdges_step points edges i =
     (case (at_index points i, at_index points ((i + 1) mod length points)) of
        (Some p1, Some p2) \<Rightarrow>
          (if py p1 = py p2
           then (fst edges @ [\<lparr>hy = py p1, hx1 = min (px p1) (px p2), hx2 = max (px p1) (px p2)\<rparr>],
                 snd edges)
           else (fst edges,
                 snd edges @ [\<lparr>vx = px p1, vy1 = min (py p1) (py p2), vy2 = max (py p1) (py p2)\<rparr>]))
      | _ \<Rightarrow> edges)"

definition buildEdges :: "Point list \<Rightarrow> HorizontalEdge list \<times> VerticalEdge list" where
  "buildEdges points = foldl (buildEdges_step points) ([], []) [0 ..< length points]"

text \<open>
  \<open>Array.from(new Set(ys))\<close> lists the distinct values in the order of their first
  occurrence.
\<close>

fun setToArray :: "int list \<Rightarrow> int list" where
  "setToArray [] = []"
| "setToArray (v # vs) = v # setToArray (filter (\<lambda>w. w \<noteq> v) vs)"

definition uniqueY :: "Point list \<Rightarrow> int list" where
  "uniqueY points = sort (setToArray (map py points))"

definition ySamples_step :: "int list \<Rightarrow> rat list \<Rightarrow> nat \<Rightarrow> rat list" where
  "ySamples_step uniq ySamples i =
     (case at_index uniq i of
        None \<Rightarrow> ySamples
      | Some y \<Rightarrow>
          (if i + 1 < length uniq then
             (case at_index uniq (i + 1) of
                None \<Rightarrow> ySamples @ [of_int y]
              | Some nextY \<Rightarrow>
                  ySamples @ [of_int y]
                  @ [roundNumber (roundNumber (of_int y + of_int nextY) / 2)])
           else ySamples @ [of_int y]))"

definition buildYSamples :: "Point list \<Rightarrow> rat list" where
  "buildYSamples points =
     (let uniq = uniqueY points in foldl (ySamples_step uniq) [] [0 ..< length uniq])"

text \<open>
  The search loops. The state is the running maximum and the coverage cache; \<open>None\<close>
  is a validation that did not return.
\<close>

definition part2_pair ::
  "Point list \<Rightarrow> rat list \<Rightarrow> VerticalEdge list \<Rightarrow> HorizontalEdge list \<Rightarrow> nat
     \<Rightarrow> (int \<times> CoverageCache) option \<Rightarrow> nat \<Rightarrow> (int \<times> CoverageCache) option" where
  "part2_pair points ySamples verticalEdges horizontalEdges i st j =
     (case st of
        None \<Rightarrow> None
      | Some (maxArea, coverageCache) \<Rightarrow>
          (case (at_index points i, at_index points j) of
             (Some p1, Some p2) \<Rightarrow>
               (case isRectangleValid p1 p2 ySamples points verticalEdges horizontalEdges
                       coverageCache of
                  None \<Rightarrow> None
                | Some (valid, cache') \<Rightarrow>
                    if valid then
                      (let a = area p1 p2
                       in if a > maxArea then Some (a, cache') else Some (maxArea, cache'))
                    else Some (maxArea, cache'))
           | _ \<Rightarrow> Some (maxArea, coverageCache)))"

definition part2_row ::
  "Point list \<Rightarrow> rat list \<Rightarrow> VerticalEdge list \<Rightarrow> HorizontalEdge list
     \<Rightarrow> (int \<times> CoverageCache) option \<Rightarrow> nat \<Rightarrow> (int \<times> CoverageCache) option" where
  "part2_row points ySamples verticalEdges horizontalEdges st i =
     foldl (part2_pair points ySamples verticalEdges horizontalEdges i) st
       [i + 1 ..< length points]"

definition part2 :: "Point list \<Rightarrow> int option" where
  "part2 points =
     (case buildEdges points of
        (horizontalEdges, verticalEdges) \<Rightarrow>
          (let ySamples = buildYSamples points
           in map_option fst
                (foldl (part2_row points ySamples verticalEdges horizontalEdges)
                   (Some (0, Map.empty)) [0 ..< length points])))"

section \<open>Notions used in the statements\<close>

text \<open>
  Coalescing a list of ranges that is sorted by start: a range that begins at or before
  the end of its predecessor is absorbed into it.
\<close>

fun coalesce :: "Range list \<Rightarrow> Range list" where
  "coalesce [] = []"
| "coalesce [r] = [r]"
| "coalesce (r1 # r2 # rs) =
     (if rend r1 < rstart r2 then r1 # coalesce (r2 # rs)
      else coalesce (r1\<lparr>rend := max (rend r1) (rend r2)\<rparr> # rs))"

fun pairUp :: "int list \<Rightarrow> Range list" where
  "pairUp (x1 # x2 # rest) = \<lparr>rstart = x1, rend = x2\<rparr> # pairUp rest"
| "pairUp _ = []"

definition interval :: "Range \<Rightarrow> real set" where
  "interval r = {real_of_int (rstart r) .. real_of_int (rend r)}"


text \<open>
  The coverage a query computes when the cache holds nothing, and the caches that hold
  only such coverages. The search starts from the empty cache and fills it only through
  \<open>getCoverageAtY\<close>.
\<close>

definition freshCoverage ::
  "rat \<Rightarrow> Point list \<Rightarrow> VerticalEdge list \<Rightarrow> HorizontalEdge list \<Rightarrow> Range list" where
  "freshCoverage y points verticalEdges horizontalEdges =
     fst (getCoverageAtY y points verticalEdges horizontalEdges Map.empty)"

definition cacheConsistent ::
  "Point list \<Rightarrow> VerticalEdge list \<Rightarrow> HorizontalEdge list \<Rightarrow> CoverageCache \<Rightarrow> bool" where
  "cacheConsistent points verticalEdges horizontalEdges coverageCache \<longleftrightarrow>
     (\<forall>k cov. coverageCache k = Some cov
        \<longrightarrow> cov = freshCoverage k points verticalEdges horizontalEdges)"



text \<open>The example of the puzzle statement, whose expected answers the solver asserts.\<close>

definition examplePolygon :: "Point list" where
  "examplePolygon =
     [\<lparr>px = 7, py = 1\<rparr>, \<lparr>px = 11, py = 1\<rparr>, \<lparr>px = 11, py = 7\<rparr>, \<lparr>px = 9, py = 7\<rparr>,
      \<lparr>px = 9, py = 5\<rparr>, \<lparr>px = 2, py = 5\<rparr>, \<lparr>px = 2, py = 3\<rparr>, \<lparr>px = 7, py = 3\<rparr>]"

text \<open>A rectilinear polygon with a slot one unit wide cut into its upper half.\<close>

definition slottedPolygon :: "Point list" where
  "slottedPolygon =
     [\<lparr>px = 0, py = 0\<rparr>, \<lparr>px = 5, py = 0\<rparr>, \<lparr>px = 5, py = 10\<rparr>, \<lparr>px = 3, py = 10\<rparr>,
      \<lparr>px = 3, py = 5\<rparr>, \<lparr>px = 2, py = 5\<rparr>, \<lparr>px = 2, py = 10\<rparr>, \<lparr>px = 0, py = 10\<rparr>]"




text \<open>The cache after a sequence of queries on one polygon, starting from the empty cache.\<close>

definition cacheAfter ::
  "Point list \<Rightarrow> VerticalEdge list \<Rightarrow> HorizontalEdge list \<Rightarrow> rat list \<Rightarrow> CoverageCache" where
  "cacheAfter points verticalEdges horizontalEdges queries =
     foldl (\<lambda>cache q. snd (getCoverageAtY q points verticalEdges horizontalEdges cache))
       Map.empty queries"

text \<open>
  The rows of a rectangle checked one after the other, stopping at the first row that no
  single range covers: the loop of \<open>isRectangleValid\<close> on the list of rows it visits.
\<close>

fun scanRows ::
  "int \<Rightarrow> int \<Rightarrow> Point list \<Rightarrow> VerticalEdge list \<Rightarrow> HorizontalEdge list \<Rightarrow> rat list
     \<Rightarrow> CoverageCache \<Rightarrow> bool \<times> CoverageCache" where
  "scanRows minX maxX points verticalEdges horizontalEdges [] cache = (True, cache)"
| "scanRows minX maxX points verticalEdges horizontalEdges (s # rows) cache =
     (case getCoverageAtY s points verticalEdges horizontalEdges cache of
        (coverage, cache') \<Rightarrow>
          if list_ex (\<lambda>r. rstart r \<le> minX \<and> rend r \<ge> maxX) coverage
          then scanRows minX maxX points verticalEdges horizontalEdges rows cache'
          else (False, cache'))"

text \<open>
  A cache extends another when it keeps every entry and adds only coverages computed for
  the polygon.
\<close>

definition cacheExtends ::
  "Point list \<Rightarrow> VerticalEdge list \<Rightarrow> HorizontalEdge list \<Rightarrow> CoverageCache \<Rightarrow> CoverageCache
     \<Rightarrow> bool" where
  "cacheExtends points verticalEdges horizontalEdges cache cache' \<longleftrightarrow>
     (\<forall>k. cache' k = cache k
          \<or> (cache k = None \<and> cache' k = Some (freshCoverage k points verticalEdges horizontalEdges)))"

section \<open>Rounding\<close>

subsection \<open>Rounding is exact on small values\<close>

text \<open>
  Integers up to \<open>2^53\<close> and halves of integers up to \<open>2^52\<close> in magnitude are
  representable, so rounding leaves them as they are. The two code equations only skip
  the search of the exponent on such values.
\<close>

lemma unitOf_pos: "0 < unitOf b"
  by (simp add: unitOf_def)

lemma nearestEven_of_int: "nearestEven (of_int k) = k"
  by (simp add: nearestEven_def)

lemma roundToUnit_exact:
  assumes "0 < u" and "x / u = of_int k"
  shows "roundToUnit u x = x"
proof -
  have "x = of_int k * u" using assms by (simp add: field_simps)
  then show ?thesis using assms(2) by (simp add: roundToUnit_def nearestEven_of_int)
qed

lemma binaryExponent_large:
  assumes "1 \<le> \<bar>x\<bar>"
  shows "1 \<le> binaryExponent x" and "2 ^ nat (binaryExponent x - 1) \<le> \<bar>x\<bar>"
proof -
  let ?m = "\<lfloor>\<bar>x\<bar>\<rfloor>"
  have m: "0 < ?m" using assms by simp
  have b: "binaryExponent x = bitlen ?m" using assms by (simp add: binaryExponent_def)
  have "bitlen ?m \<noteq> 0" using m by (simp add: bitlen_eq_zero_iff)
  then show "1 \<le> binaryExponent x" using bitlen_nonneg [of ?m] b by simp
  have "(2 :: int) ^ nat (bitlen ?m - 1) \<le> ?m" using bitlen_bounds [OF m] by simp
  then have "rat_of_int (2 ^ nat (bitlen ?m - 1)) \<le> of_int ?m" by (simp only: of_int_le_iff)
  also have "\<dots> \<le> \<bar>x\<bar>" by simp
  finally show "2 ^ nat (binaryExponent x - 1) \<le> \<bar>x\<bar>" by (simp add: b)
qed

lemma binaryExponent_small: "\<bar>x\<bar> < 1 \<Longrightarrow> binaryExponent x \<le> 1"
  using bitlen_nonneg [of "\<lceil>1 / \<bar>x\<bar>\<rceil> - 1"] by (simp add: binaryExponent_def)

lemma exponent_bound:
  assumes "(2 :: rat) ^ nat (b - 1) \<le> 2 ^ n"
  shows "b \<le> int n + 1"
proof -
  have "nat (b - 1) \<le> n" using assms by (simp add: power_le_imp_le_exp)
  then show ?thesis by simp
qed

lemma roundNumber_half:
  assumes x: "x = of_int n / 2" and le: "\<bar>x\<bar> \<le> 2 ^ 52"
  shows "roundNumber x = x"
proof (cases "x = 0")
  case True
  then show ?thesis by (simp add: roundNumber_def)
next
  case False
  let ?b = "binaryExponent x"
  have "\<exists>k. x / unitOf ?b = of_int k"
  proof (cases "1 \<le> \<bar>x\<bar>")
    case True
    have "(2 :: rat) ^ nat (?b - 1) \<le> 2 ^ 52"
      using binaryExponent_large(2) [OF True] le by simp
    then have b: "?b \<le> 53" using exponent_bound [of ?b 52] by simp
    show ?thesis
    proof (cases "?b = 53")
      case True
      then have "(2 :: rat) ^ 52 \<le> \<bar>x\<bar>"
        using binaryExponent_large(2) [OF \<open>1 \<le> \<bar>x\<bar>\<close>] by simp
      then have "\<bar>x\<bar> = 2 ^ 52" using le by simp
      then have "x = of_int (2 ^ 52) \<or> x = of_int (- (2 ^ 52))"
        by (auto simp: abs_if split: if_splits)
      then obtain m where "x = rat_of_int m" by blast
      then have "x / unitOf ?b = of_int m" using True by (simp add: unitOf_def)
      then show ?thesis ..
    next
      case False
      with b have lt: "?b \<le> 52" by simp
      then have "nat (53 - ?b) = Suc (nat (52 - ?b))" by simp
      then have "x / unitOf ?b = of_int (n * 2 ^ nat (52 - ?b))"
        using lt by (simp add: unitOf_def x)
      then show ?thesis ..
    qed
  next
    case False
    then have "?b \<le> 1" using binaryExponent_small [of x] by simp
    then have "nat (53 - ?b) = Suc (nat (52 - ?b))" by simp
    moreover have "\<not> 53 \<le> ?b" using \<open>?b \<le> 1\<close> by simp
    ultimately have "x / unitOf ?b = of_int (n * 2 ^ nat (52 - ?b))"
      by (simp add: unitOf_def x)
    then show ?thesis ..
  qed
  then obtain k where "x / unitOf ?b = of_int k" ..
  then have "roundToUnit (unitOf ?b) x = x"
    using unitOf_pos by (rule roundToUnit_exact [rotated])
  then show ?thesis using False by (simp add: roundNumber_def)
qed

lemma roundNumber_int:
  assumes "\<bar>n\<bar> \<le> 2 ^ 53"
  shows "roundNumber (of_int n) = of_int n"
proof (cases "n = 0")
  case True
  then show ?thesis by (simp add: roundNumber_def)
next
  case False
  let ?x = "rat_of_int n"
  let ?b = "binaryExponent ?x"
  have one: "1 \<le> \<bar>?x\<bar>" using False by (simp flip: of_int_abs)
  have le: "\<bar>?x\<bar> \<le> 2 ^ 53"
  proof -
    have "rat_of_int \<bar>n\<bar> \<le> of_int (2 ^ 53)" using assms by (simp only: of_int_le_iff)
    then show ?thesis by simp
  qed
  have "(2 :: rat) ^ nat (?b - 1) \<le> 2 ^ 53"
    using binaryExponent_large(2) [OF one] le by (rule order_trans)
  then have b: "?b \<le> 54" using exponent_bound [of ?b 53] by simp
  have "\<exists>k. ?x / unitOf ?b = of_int k"
  proof (cases "?b = 54")
    case True
    then have "(2 :: rat) ^ 53 \<le> \<bar>?x\<bar>"
      using binaryExponent_large(2) [OF one] by simp
    then have "\<bar>?x\<bar> = 2 ^ 53" using le by simp
    then have "?x = of_int (2 * 2 ^ 52) \<or> ?x = of_int (- (2 * 2 ^ 52))"
      by (auto simp: abs_if split: if_splits)
    then have "?x / 2 = of_int (2 ^ 52) \<or> ?x / 2 = of_int (- (2 ^ 52))"
      by auto
    then obtain m where "?x / 2 = rat_of_int m" by blast
    then have "?x / unitOf ?b = of_int m" using True by (simp add: unitOf_def)
    then show ?thesis ..
  next
    case False
    with b have "?b \<le> 53" by simp
    then have "?x / unitOf ?b = of_int (n * 2 ^ nat (53 - ?b))"
      by (simp add: unitOf_def)
    then show ?thesis ..
  qed
  then obtain k where "?x / unitOf ?b = of_int k" ..
  then have "roundToUnit (unitOf ?b) ?x = ?x"
    using unitOf_pos by (rule roundToUnit_exact [rotated])
  then show ?thesis using False by (simp add: roundNumber_def)
qed

lemma roundInt_exact: "\<bar>n\<bar> \<le> 2 ^ 53 \<Longrightarrow> roundInt n = n"
  by (simp add: roundInt_def roundNumber_int)

lemma roundInt_code [code]:
  "roundInt n = (if \<bar>n\<bar> \<le> 9007199254740992 then n else \<lfloor>roundNumber (of_int n)\<rfloor>)"
  using roundInt_exact [of n] by (simp add: roundInt_def)

lemma roundNumber_code [code]:
  "roundNumber x =
     (if x = 0 then 0
      else if \<bar>x\<bar> \<le> 4503599627370496 \<and> of_int \<lfloor>2 * x\<rfloor> = 2 * x then x
      else roundToUnit (unitOf (binaryExponent x)) x)"
proof (cases "\<bar>x\<bar> \<le> 4503599627370496 \<and> of_int \<lfloor>2 * x\<rfloor> = 2 * x")
  case True
  then have e: "of_int \<lfloor>2 * x\<rfloor> = 2 * x" by blast
  have "x = of_int \<lfloor>2 * x\<rfloor> / 2" by (simp only: e)
  moreover have "\<bar>x\<bar> \<le> 2 ^ 52" using True by simp
  ultimately have "roundNumber x = x" by (rule roundNumber_half)
  then show ?thesis using True by (simp add: roundNumber_def)
next
  case False
  then show ?thesis by (auto simp: roundNumber_def)
qed


subsection \<open>Rounding is monotone\<close>































lemma roundInt_small [simp]: "roundInt 0 = 0" "roundInt 1 = 1"
  using roundInt_exact [of 0] roundInt_exact [of 1] by simp_all



section \<open>Merging ranges\<close>

lemma mergeRanges_step_snoc:
  "mergeRanges_step (ys @ [l]) r =
     (if rend l < rstart r then ys @ [l, r] else ys @ [l\<lparr>rend := max (rend l) (rend r)\<rparr>])"
  by (simp add: mergeRanges_step_def)

lemma mergeRanges_step_Nil: "mergeRanges_step [] r = [r]"
  by (simp add: mergeRanges_step_def)

lemma foldl_mergeRanges_step_snoc:
  "foldl mergeRanges_step (ys @ [l]) rs = ys @ coalesce (l # rs)"
proof (induction rs arbitrary: ys l)
  case Nil
  show ?case by simp
next
  case (Cons r rs)
  show ?case
  proof (cases "rend l < rstart r")
    case True
    have "foldl mergeRanges_step (ys @ [l]) (r # rs) = foldl mergeRanges_step ((ys @ [l]) @ [r]) rs"
      using True by (simp add: mergeRanges_step_snoc)
    also have "\<dots> = (ys @ [l]) @ coalesce (r # rs)"
      by (rule Cons.IH)
    finally show ?thesis using True by simp
  next
    case False
    have "foldl mergeRanges_step (ys @ [l]) (r # rs)
            = foldl mergeRanges_step (ys @ [l\<lparr>rend := max (rend l) (rend r)\<rparr>]) rs"
      using False by (simp add: mergeRanges_step_snoc)
    also have "\<dots> = ys @ coalesce (l\<lparr>rend := max (rend l) (rend r)\<rparr> # rs)"
      by (rule Cons.IH)
    finally show ?thesis using False by simp
  qed
qed

lemma foldl_mergeRanges_step_Nil: "foldl mergeRanges_step [] rs = coalesce rs"
proof (cases rs)
  case Nil
  then show ?thesis by simp
next
  case (Cons r rs')
  have "foldl mergeRanges_step [] (r # rs') = foldl mergeRanges_step ([] @ [r]) rs'"
    by (simp add: mergeRanges_step_Nil)
  also have "\<dots> = [] @ coalesce (r # rs')"
    by (rule foldl_mergeRanges_step_snoc)
  finally show ?thesis using Cons by simp
qed

lemma mergeRanges_coalesce: "mergeRanges ranges = coalesce (sort_key rstart ranges)"
  by (cases "ranges = []") (simp_all add: mergeRanges_def foldl_mergeRanges_step_Nil)

lemma coalesce_Cons_hd:
  "coalesce (r # rs) \<noteq> [] \<and> rstart (hd (coalesce (r # rs))) = rstart r
     \<and> rend r \<le> rend (hd (coalesce (r # rs)))"
proof (induction rs arbitrary: r)
  case Nil
  show ?case by simp
next
  case (Cons r2 rs)
  show ?case
  proof (cases "rend r < rstart r2")
    case True
    then show ?thesis by simp
  next
    case False
    from Cons.IH [of "r\<lparr>rend := max (rend r) (rend r2)\<rparr>"] False
    show ?thesis by simp
  qed
qed

lemma coalesce_starts_subset: "rstart ` set (coalesce rs) \<subseteq> rstart ` set rs"
  by (induction rs rule: coalesce.induct) auto

lemma coalesce_sorted_starts:
  "sorted (map rstart rs) \<Longrightarrow> sorted (map rstart (coalesce rs))"
proof (induction rs rule: coalesce.induct)
  case (3 r1 r2 rs)
  show ?case
  proof (cases "rend r1 < rstart r2")
    case True
    have "\<forall>s \<in> rstart ` set (coalesce (r2 # rs)). rstart r1 \<le> s"
      using coalesce_starts_subset [of "r2 # rs"] "3.prems" by auto
    moreover have "sorted (map rstart (coalesce (r2 # rs)))"
      using "3.IH"(1) [OF True] "3.prems" by simp
    ultimately show ?thesis using True by simp
  next
    case False
    then show ?thesis using "3.IH"(2) "3.prems" by simp
  qed
qed simp_all

lemma coalesce_separated: "successively (\<lambda>a b. rend a < rstart b) (coalesce rs)"
proof (induction rs rule: coalesce.induct)
  case (3 r1 r2 rs)
  show ?case
  proof (cases "rend r1 < rstart r2")
    case True
    then show ?thesis
      using "3.IH"(1) coalesce_Cons_hd [of r2 rs] by (simp add: successively_Cons)
  next
    case False
    then show ?thesis using "3.IH"(2) by simp
  qed
qed simp_all

lemma interval_merge:
  assumes "rstart r1 \<le> rstart r2" and "\<not> rend r1 < rstart r2"
  shows "interval (r1\<lparr>rend := max (rend r1) (rend r2)\<rparr>) = interval r1 \<union> interval r2"
  using assms by (auto simp: interval_def)

lemma coalesce_union:
  "sorted (map rstart rs) \<Longrightarrow> (\<Union>r \<in> set (coalesce rs). interval r) = (\<Union>r \<in> set rs. interval r)"
proof (induction rs rule: coalesce.induct)
  case (3 r1 r2 rs)
  show ?case
  proof (cases "rend r1 < rstart r2")
    case True
    then show ?thesis using "3.IH"(1) "3.prems" by simp
  next
    case False
    have le: "rstart r1 \<le> rstart r2" using "3.prems" by simp
    have "sorted (map rstart (r1\<lparr>rend := max (rend r1) (rend r2)\<rparr> # rs))"
      using "3.prems" by simp
    from "3.IH"(2) [OF False this] interval_merge [OF le False] False
    show ?thesis by auto
  qed
qed simp_all


lemma successively_nth:
  "successively P xs \<longleftrightarrow> (\<forall>i. Suc i < length xs \<longrightarrow> P (xs ! i) (xs ! Suc i))"
proof (induction P xs rule: successively.induct)
  case (3 P x y xs)
  have "(\<forall>i. Suc i < length (x # y # xs) \<longrightarrow> P ((x # y # xs) ! i) ((x # y # xs) ! Suc i))
          \<longleftrightarrow> P x y \<and> (\<forall>i. Suc i < length (y # xs) \<longrightarrow> P ((y # xs) ! i) ((y # xs) ! Suc i))"
    (is "?L \<longleftrightarrow> ?R")
  proof
    assume l: ?L
    have "P x y" using l [rule_format, of 0] by simp
    moreover have "\<forall>i. Suc i < length (y # xs) \<longrightarrow> P ((y # xs) ! i) ((y # xs) ! Suc i)"
    proof (intro allI impI)
      fix i assume "Suc i < length (y # xs)"
      then show "P ((y # xs) ! i) ((y # xs) ! Suc i)"
        using l [rule_format, of "Suc i"] by simp
    qed
    ultimately show ?R by simp
  next
    assume r: ?R
    show ?L
    proof (intro allI impI)
      fix i assume i: "Suc i < length (x # y # xs)"
      show "P ((x # y # xs) ! i) ((x # y # xs) ! Suc i)"
      proof (cases i)
        case 0
        then show ?thesis using r by simp
      next
        case (Suc k)
        then show ?thesis using r i by simp
      qed
    qed
  qed
  then show ?case using "3.IH" by simp
qed simp_all

text \<open>
  Claim C10. For every list of ranges with \<open>start \<le> end\<close> each, the output of
  \<open>mergeRanges\<close> is sorted ascending by start, each output range ends strictly before
  the next one starts, and the union of the output ranges, read as closed real intervals,
  is the union of the input ranges.
\<close>

theorem mergeRanges_sorted_disjoint_union:
  assumes "\<forall>r \<in> set ranges. rstart r \<le> rend r"
  shows "sorted (map rstart (mergeRanges ranges))
       \<and> (\<forall>i. Suc i < length (mergeRanges ranges)
              \<longrightarrow> rend (mergeRanges ranges ! i) < rstart (mergeRanges ranges ! Suc i))
       \<and> (\<Union>r \<in> set (mergeRanges ranges). interval r) = (\<Union>r \<in> set ranges. interval r)"
proof -
  let ?s = "sort_key rstart ranges"
  have srt: "sorted (map rstart ?s)" by simp
  have "sorted (map rstart (coalesce ?s))"
    using srt by (rule coalesce_sorted_starts)
  moreover have "\<forall>i. Suc i < length (coalesce ?s) \<longrightarrow> rend (coalesce ?s ! i) < rstart (coalesce ?s ! Suc i)"
    using coalesce_separated [of ?s] by (simp only: successively_nth)
  moreover have "(\<Union>r \<in> set (coalesce ?s). interval r) = (\<Union>r \<in> set ranges. interval r)"
    using coalesce_union [OF srt] by simp
  ultimately show ?thesis by (simp only: mergeRanges_coalesce)
qed

text \<open>The theorem at three ranges, two of which overlap.\<close>

theorem mergeRanges_sorted_disjoint_union_witness:
  "list_all (\<lambda>r. rstart r \<le> rend r)
     [\<lparr>rstart = 3, rend = 6\<rparr>, \<lparr>rstart = 1, rend = 4\<rparr>, \<lparr>rstart = 8, rend = 9\<rparr>]
   \<and> mergeRanges [\<lparr>rstart = 3, rend = 6\<rparr>, \<lparr>rstart = 1, rend = 4\<rparr>, \<lparr>rstart = 8, rend = 9\<rparr>]
       = [\<lparr>rstart = 1, rend = 6\<rparr>, \<lparr>rstart = 8, rend = 9\<rparr>]
   \<and> sorted (map rstart
         (mergeRanges [\<lparr>rstart = 3, rend = 6\<rparr>, \<lparr>rstart = 1, rend = 4\<rparr>, \<lparr>rstart = 8, rend = 9\<rparr>]))
   \<and> (\<Union>r \<in> set (mergeRanges [\<lparr>rstart = 3, rend = 6\<rparr>, \<lparr>rstart = 1, rend = 4\<rparr>, \<lparr>rstart = 8, rend = 9\<rparr>]). interval r)
       = (\<Union>r \<in> set [\<lparr>rstart = 3, rend = 6\<rparr>, \<lparr>rstart = 1, rend = 4\<rparr>, \<lparr>rstart = 8, rend = 9\<rparr>]. interval r)"
proof -
  let ?l = "[\<lparr>rstart = 3, rend = 6\<rparr>, \<lparr>rstart = 1, rend = 4\<rparr>, \<lparr>rstart = 8, rend = 9\<rparr>]"
  have h: "\<forall>r \<in> set ?l. rstart r \<le> rend r" by simp
  have l: "list_all (\<lambda>r. rstart r \<le> rend r) ?l" by simp
  have e: "mergeRanges ?l = [\<lparr>rstart = 1, rend = 6\<rparr>, \<lparr>rstart = 8, rend = 9\<rparr>]"
    by code_simp
  from mergeRanges_sorted_disjoint_union [OF h] l e show ?thesis by blast
qed

section \<open>Scanline coverage and its cache\<close>

lemma getInteriorAtY_loop_pairUp:
  "getInteriorAtY_loop xs i acc = acc @ pairUp (drop i xs)"
proof (induction "length xs - i" arbitrary: i acc rule: less_induct)
  case less
  show ?case
  proof (cases "i + 1 < length xs")
    case True
    then have d: "drop i xs = xs ! i # xs ! (i + 1) # drop (i + 2) xs"
      by (simp add: Cons_nth_drop_Suc)
    have "getInteriorAtY_loop xs i acc
            = getInteriorAtY_loop xs (i + 2) (acc @ [\<lparr>rstart = xs ! i, rend = xs ! (i + 1)\<rparr>])"
      using True by (subst getInteriorAtY_loop.simps) (simp add: at_index_def)
    also have "\<dots> = (acc @ [\<lparr>rstart = xs ! i, rend = xs ! (i + 1)\<rparr>]) @ pairUp (drop (i + 2) xs)"
      using True by (intro less) simp
    finally show ?thesis by (simp add: d)
  next
    case False
    show ?thesis
    proof (cases "i < length xs")
      case True
      with False have l: "length xs = Suc i" by simp
      then have d: "drop i xs = [xs ! i]"
        by (metis Cons_nth_drop_Suc drop_all le_refl lessI)
      have "getInteriorAtY_loop xs i acc = getInteriorAtY_loop xs (i + 2) acc"
        using True False by (subst getInteriorAtY_loop.simps) simp
      also have "\<dots> = acc"
        using l by (subst getInteriorAtY_loop.simps) simp
      finally show ?thesis by (simp add: d)
    next
      case False
      then show ?thesis by (subst getInteriorAtY_loop.simps) simp
    qed
  qed
qed

lemma getInteriorAtY_pairUp:
  "getInteriorAtY y verticalEdges =
     pairUp (sort (map vx (filter (\<lambda>e. of_int (vy1 e) < y \<and> y < of_int (vy2 e)) verticalEdges)))"
  by (simp add: getInteriorAtY_def getInteriorAtY_loop_pairUp)

lemma pairUp_starts_subset: "rstart ` set (pairUp xs) \<subseteq> set xs"
  by (induction xs rule: pairUp.induct) auto

lemma pairUp_sorted_starts: "sorted xs \<Longrightarrow> sorted (map rstart (pairUp xs))"
proof (induction xs rule: pairUp.induct)
  case (1 x1 x2 rest)
  then show ?case using pairUp_starts_subset [of rest] by auto
qed simp_all

lemma pairUp_hd: "pairUp xs \<noteq> [] \<Longrightarrow> rstart (hd (pairUp xs)) = hd xs"
  by (induction xs rule: pairUp.induct) simp_all

lemma pairUp_hd_mem: "pairUp xs \<noteq> [] \<Longrightarrow> rstart (hd (pairUp xs)) \<in> set xs"
  by (induction xs rule: pairUp.induct) simp_all

lemma pairUp_touching: "sorted xs \<Longrightarrow> successively (\<lambda>a b. rend a \<le> rstart b) (pairUp xs)"
proof (induction xs rule: pairUp.induct)
  case (1 x1 x2 rest)
  then show ?case using pairUp_hd_mem [of rest] by (auto simp: successively_Cons)
qed simp_all

lemma getInteriorAtY_sorted: "sorted (map rstart (getInteriorAtY y vs))"
  by (simp add: getInteriorAtY_pairUp pairUp_sorted_starts)

lemma getInteriorAtY_touching:
  "successively (\<lambda>a b. rend a \<le> rstart b) (getInteriorAtY y vs)"
  by (simp add: getInteriorAtY_pairUp pairUp_touching)

lemma getCoverageAtY_hit:
  "cache y = Some cov \<Longrightarrow> getCoverageAtY y ps vs hs cache = (cov, cache)"
  by (simp add: getCoverageAtY_def)

lemma freshCoverage_eq:
  "freshCoverage y ps vs hs =
     (if list_ex (\<lambda>p. of_int (py p) = y) ps
      then mergeRanges
             (getInteriorAtY (roundNumber (y + 1 / 2)) vs
              @ getInteriorAtY (roundNumber (y - 1 / 2)) vs
              @ map (\<lambda>e. \<lparr>rstart = hx1 e, rend = hx2 e\<rparr>) (filter (\<lambda>e. of_int (hy e) = y) hs))
      else getInteriorAtY y vs)"
  by (simp add: freshCoverage_def getCoverageAtY_def Let_def)

lemma getCoverageAtY_miss:
  "cache y = None \<Longrightarrow>
     getCoverageAtY y ps vs hs cache =
       (freshCoverage y ps vs hs, cache(y \<mapsto> freshCoverage y ps vs hs))"
  by (simp add: freshCoverage_def getCoverageAtY_def Let_def)

lemma getCoverageAtY_stored:
  "snd (getCoverageAtY y ps vs hs cache) y = Some (fst (getCoverageAtY y ps vs hs cache))"
  by (cases "cache y") (simp_all add: getCoverageAtY_miss getCoverageAtY_hit)

lemma getCoverageAtY_keeps:
  "cache k = Some v \<Longrightarrow> snd (getCoverageAtY y ps vs hs cache) k = Some v"
  by (cases "cache y") (auto simp: getCoverageAtY_miss getCoverageAtY_hit)

lemma getCoverageAtY_dom:
  "dom (snd (getCoverageAtY y ps vs hs cache)) = insert y (dom cache)"
  by (cases "cache y") (auto simp: getCoverageAtY_miss getCoverageAtY_hit)

lemma cacheConsistent_empty: "cacheConsistent ps vs hs Map.empty"
  by (simp add: cacheConsistent_def)

lemma cacheConsistent_fst:
  assumes "cacheConsistent ps vs hs cache"
  shows "fst (getCoverageAtY y ps vs hs cache) = freshCoverage y ps vs hs"
proof (cases "cache y")
  case None
  then show ?thesis by (simp add: getCoverageAtY_miss)
next
  case (Some cov)
  then have "cov = freshCoverage y ps vs hs"
    using assms unfolding cacheConsistent_def by blast
  then show ?thesis using Some by (simp add: getCoverageAtY_hit)
qed

lemma cacheConsistent_snd:
  assumes "cacheConsistent ps vs hs cache"
  shows "cacheConsistent ps vs hs (snd (getCoverageAtY y ps vs hs cache))"
proof (cases "cache y")
  case None
  then show ?thesis using assms by (auto simp: getCoverageAtY_miss cacheConsistent_def)
next
  case (Some cov)
  then show ?thesis using assms by (simp add: getCoverageAtY_hit)
qed

lemma queries_keep:
  "cache k = Some v \<Longrightarrow>
     foldl (\<lambda>c (q, ps, vs, hs). snd (getCoverageAtY q ps vs hs c)) cache qs k = Some v"
proof (induction qs arbitrary: cache)
  case Nil
  then show ?case by simp
next
  case (Cons q qs)
  obtain y ps vs hs where q: "q = (y, ps, vs, hs)" by (cases q)
  have "snd (getCoverageAtY y ps vs hs cache) k = Some v"
    using Cons.prems by (rule getCoverageAtY_keeps)
  then show ?case using Cons.IH q by simp
qed

text \<open>
  Claim C8. \<open>getCoverageAtY\<close> leaves the coverage it returns in the cache under the
  key \<open>y\<close>; a second query for \<open>y\<close> on that cache returns this stored coverage and
  the same cache whatever polygon it is given, so nothing is recomputed; and over any
  sequence of queries an entry that is in the cache stays there unchanged.
\<close>

theorem getCoverageAtY_cache:
  "snd (getCoverageAtY y ps vs hs cache) y = Some (fst (getCoverageAtY y ps vs hs cache))
   \<and> (\<forall>ps' vs' hs'.
         getCoverageAtY y ps' vs' hs' (snd (getCoverageAtY y ps vs hs cache))
           = (fst (getCoverageAtY y ps vs hs cache), snd (getCoverageAtY y ps vs hs cache)))
   \<and> (\<forall>qs k v. cache k = Some v
         \<longrightarrow> foldl (\<lambda>c (q, ps', vs', hs'). snd (getCoverageAtY q ps' vs' hs' c)) cache qs k = Some v)"
  using getCoverageAtY_stored [of y ps vs hs cache]
  by (auto simp: getCoverageAtY_hit queries_keep)

text \<open>
  The theorem on the example polygon, with a cache that already holds an entry for 5.
\<close>

theorem getCoverageAtY_cache_witness:
  "snd (getCoverageAtY 2 examplePolygon (snd (buildEdges examplePolygon))
          (fst (buildEdges examplePolygon)) [5 \<mapsto> [\<lparr>rstart = 9, rend = 9\<rparr>]]) 2
     = Some [\<lparr>rstart = 7, rend = 11\<rparr>]
   \<and> fst (getCoverageAtY 2 [] [] []
        (snd (getCoverageAtY 2 examplePolygon (snd (buildEdges examplePolygon))
               (fst (buildEdges examplePolygon)) [5 \<mapsto> [\<lparr>rstart = 9, rend = 9\<rparr>]])))
     = [\<lparr>rstart = 7, rend = 11\<rparr>]
   \<and> foldl (\<lambda>c (q, ps', vs', hs'). snd (getCoverageAtY q ps' vs' hs' c))
        [5 \<mapsto> [\<lparr>rstart = 9, rend = 9\<rparr>]]
        [(2, examplePolygon, [], []), (5, examplePolygon, [], [])] 5
     = Some [\<lparr>rstart = 9, rend = 9\<rparr>]"
proof -
  let ?c = "[5 \<mapsto> [\<lparr>rstart = 9, rend = 9\<rparr>]] :: CoverageCache"
  let ?g = "getCoverageAtY 2 examplePolygon (snd (buildEdges examplePolygon))
              (fst (buildEdges examplePolygon)) ?c"
  have e: "fst ?g = [\<lparr>rstart = 7, rend = 11\<rparr>]" by code_simp
  have k: "?c 5 = Some [\<lparr>rstart = 9, rend = 9\<rparr>]" by simp
  from getCoverageAtY_cache [of 2 examplePolygon "snd (buildEdges examplePolygon)"
      "fst (buildEdges examplePolygon)" ?c]
  have 1: "snd ?g 2 = Some (fst ?g)"
    and 2: "getCoverageAtY 2 [] [] [] (snd ?g) = (fst ?g, snd ?g)"
    and 3: "foldl (\<lambda>c (q, ps', vs', hs'). snd (getCoverageAtY q ps' vs' hs' c)) ?c
              [(2, examplePolygon, [], []), (5, examplePolygon, [], [])] 5
            = Some [\<lparr>rstart = 9, rend = 9\<rparr>]"
    using k by blast+
  show ?thesis using 1 2 3 e by simp
qed

lemma cacheConsistent_queries:
  "cacheConsistent ps vs hs cache \<Longrightarrow>
     cacheConsistent ps vs hs
       (foldl (\<lambda>cache q. snd (getCoverageAtY q ps vs hs cache)) cache qs)"
  by (induction qs arbitrary: cache) (simp_all add: cacheConsistent_snd)

lemma cacheConsistent_cacheAfter: "cacheConsistent ps vs hs (cacheAfter ps vs hs qs)"
  unfolding cacheAfter_def by (rule cacheConsistent_queries [OF cacheConsistent_empty])

lemma getCoverageAtY_cacheAfter:
  "fst (getCoverageAtY y ps vs hs (cacheAfter ps vs hs qs)) = freshCoverage y ps vs hs"
  by (rule cacheConsistent_fst [OF cacheConsistent_cacheAfter])

text \<open>
  Claim C5. When no vertex of the polygon has the y-coordinate \<open>y\<close>, the coverage
  returned for \<open>y\<close>, after any earlier queries on the polygon, depends on the vertical
  edges only: the x of every vertical edge with \<open>y1 < y < y2\<close>, sorted ascending and
  paired consecutively.
\<close>

theorem offVertex_coverage:
  assumes "\<not> (\<exists>p \<in> set ps. of_int (py p) = y)"
  shows "fst (getCoverageAtY y ps vs hs (cacheAfter ps vs hs qs)) =
           pairUp (sort (map vx (filter (\<lambda>e. of_int (vy1 e) < y \<and> y < of_int (vy2 e)) vs)))"
  using assms
  by (simp add: getCoverageAtY_cacheAfter freshCoverage_eq list_ex_iff getInteriorAtY_pairUp)

text \<open>
  The theorem on the example polygon at the midpoint level 2.
\<close>

theorem offVertex_coverage_witness:
  "\<not> list_ex (\<lambda>p. of_int (py p) = (2 :: rat)) examplePolygon
   \<and> fst (getCoverageAtY 2 examplePolygon (snd (buildEdges examplePolygon))
           (fst (buildEdges examplePolygon))
           (cacheAfter examplePolygon (snd (buildEdges examplePolygon))
              (fst (buildEdges examplePolygon)) [2, 5]))
       = pairUp (sort (map vx (filter (\<lambda>e. of_int (vy1 e) < (2 :: rat) \<and> (2 :: rat) < of_int (vy2 e))
                                 (snd (buildEdges examplePolygon)))))
   \<and> pairUp (sort (map vx (filter (\<lambda>e. of_int (vy1 e) < (2 :: rat) \<and> (2 :: rat) < of_int (vy2 e))
                                 (snd (buildEdges examplePolygon)))))
       = [\<lparr>rstart = 7, rend = 11\<rparr>]"
proof -
  have h: "\<not> list_ex (\<lambda>p. of_int (py p) = (2 :: rat)) examplePolygon"
    by (simp add: examplePolygon_def)
  then have h': "\<not> (\<exists>p \<in> set examplePolygon. of_int (py p) = (2 :: rat))"
    by (simp add: list_ex_iff)
  have e: "pairUp (sort (map vx (filter (\<lambda>e. of_int (vy1 e) < (2 :: rat) \<and> (2 :: rat) < of_int (vy2 e))
                                 (snd (buildEdges examplePolygon)))))
             = [\<lparr>rstart = 7, rend = 11\<rparr>]"
    by code_simp
  from offVertex_coverage [OF h', of "snd (buildEdges examplePolygon)"
      "fst (buildEdges examplePolygon)" "[2, 5]"] h e
  show ?thesis by blast
qed





lemma successively_less_le:
  "successively (\<lambda>a b. rend a < rstart b) rs \<Longrightarrow> successively (\<lambda>a b. rend a \<le> rstart b) rs"
  by (erule successively_mono) simp

lemma freshCoverage_sorted: "sorted (map rstart (freshCoverage y ps vs hs))"
  by (simp add: freshCoverage_eq getInteriorAtY_sorted mergeRanges_coalesce coalesce_sorted_starts)

lemma freshCoverage_touching:
  "successively (\<lambda>a b. rend a \<le> rstart b) (freshCoverage y ps vs hs)"
  by (simp add: freshCoverage_eq getInteriorAtY_touching mergeRanges_coalesce
      successively_less_le [OF coalesce_separated])

lemma freshCoverage_separated:
  "\<exists>p \<in> set ps. of_int (py p) = y \<Longrightarrow>
     successively (\<lambda>a b. rend a < rstart b) (freshCoverage y ps vs hs)"
  by (simp add: freshCoverage_eq list_ex_iff mergeRanges_coalesce coalesce_separated)

text \<open>
  Claim C2, as the code has it. Every coverage returned by \<open>getCoverageAtY\<close>, after
  any earlier queries on the polygon, is sorted ascending by start and each range ends at
  or before the start of the next; at the y-coordinate of a vertex each range ends
  strictly before the next one starts. Ranges one lattice step apart are left apart.
\<close>

theorem coverage_sorted_separated:
  "(let cov = fst (getCoverageAtY y ps vs hs (cacheAfter ps vs hs qs))
    in sorted (map rstart cov)
       \<and> (\<forall>i. Suc i < length cov \<longrightarrow> rend (cov ! i) \<le> rstart (cov ! Suc i))
       \<and> ((\<exists>p \<in> set ps. of_int (py p) = y)
            \<longrightarrow> (\<forall>i. Suc i < length cov \<longrightarrow> rend (cov ! i) < rstart (cov ! Suc i))))"
proof -
  let ?cov = "freshCoverage y ps vs hs"
  have 1: "sorted (map rstart ?cov)" by (rule freshCoverage_sorted)
  have 2: "\<forall>i. Suc i < length ?cov \<longrightarrow> rend (?cov ! i) \<le> rstart (?cov ! Suc i)"
    using freshCoverage_touching [of y ps vs hs] by (simp only: successively_nth)
  have 3: "(\<exists>p \<in> set ps. of_int (py p) = y)
             \<longrightarrow> (\<forall>i. Suc i < length ?cov \<longrightarrow> rend (?cov ! i) < rstart (?cov ! Suc i))"
  proof
    assume "\<exists>p \<in> set ps. of_int (py p) = y"
    from freshCoverage_separated [OF this, of vs hs]
    show "\<forall>i. Suc i < length ?cov \<longrightarrow> rend (?cov ! i) < rstart (?cov ! Suc i)"
      by (simp only: successively_nth)
  qed
  show ?thesis
    unfolding Let_def getCoverageAtY_cacheAfter using 1 2 3 by blast
qed

text \<open>
  The theorem on the slotted polygon at its top row.
\<close>

theorem coverage_sorted_separated_witness:
  "list_ex (\<lambda>p. of_int (py p) = (10 :: rat)) slottedPolygon
   \<and> fst (getCoverageAtY 10 slottedPolygon (snd (buildEdges slottedPolygon))
           (fst (buildEdges slottedPolygon))
           (cacheAfter slottedPolygon (snd (buildEdges slottedPolygon))
              (fst (buildEdges slottedPolygon)) [15 / 2]))
       = [\<lparr>rstart = 0, rend = 2\<rparr>, \<lparr>rstart = 3, rend = 5\<rparr>]
   \<and> sorted (map rstart
         (fst (getCoverageAtY 10 slottedPolygon (snd (buildEdges slottedPolygon))
                (fst (buildEdges slottedPolygon))
                (cacheAfter slottedPolygon (snd (buildEdges slottedPolygon))
                   (fst (buildEdges slottedPolygon)) [15 / 2]))))
   \<and> rend (fst (getCoverageAtY 10 slottedPolygon (snd (buildEdges slottedPolygon))
                 (fst (buildEdges slottedPolygon))
                 (cacheAfter slottedPolygon (snd (buildEdges slottedPolygon))
                    (fst (buildEdges slottedPolygon)) [15 / 2])) ! 0)
       < rstart (fst (getCoverageAtY 10 slottedPolygon (snd (buildEdges slottedPolygon))
                 (fst (buildEdges slottedPolygon))
                 (cacheAfter slottedPolygon (snd (buildEdges slottedPolygon))
                    (fst (buildEdges slottedPolygon)) [15 / 2])) ! Suc 0)"
proof -
  let ?cov = "fst (getCoverageAtY 10 slottedPolygon (snd (buildEdges slottedPolygon))
           (fst (buildEdges slottedPolygon))
           (cacheAfter slottedPolygon (snd (buildEdges slottedPolygon))
              (fst (buildEdges slottedPolygon)) [15 / 2]))"
  have h: "list_ex (\<lambda>p. of_int (py p) = (10 :: rat)) slottedPolygon"
    by (simp add: slottedPolygon_def)
  then have h': "\<exists>p \<in> set slottedPolygon. of_int (py p) = (10 :: rat)"
    by (simp add: list_ex_iff)
  have e: "?cov = [\<lparr>rstart = 0, rend = 2\<rparr>, \<lparr>rstart = 3, rend = 5\<rparr>]"
    by code_simp
  then have l: "Suc 0 < length ?cov" by simp
  from coverage_sorted_separated [of 10 slottedPolygon "snd (buildEdges slottedPolygon)"
      "fst (buildEdges slottedPolygon)" "[15 / 2]"]
  have "sorted (map rstart ?cov)"
    and "(\<exists>p \<in> set slottedPolygon. of_int (py p) = (10 :: rat))
           \<longrightarrow> (\<forall>i. Suc i < length ?cov \<longrightarrow> rend (?cov ! i) < rstart (?cov ! Suc i))"
    unfolding Let_def by blast+
  then show ?thesis using h h' e l by blast
qed

text \<open>
  Claim C2 as stated fails: in the slotted polygon the rows 7.5 (no vertex) and 10 (a
  vertex row) are covered by the two ranges \<open>[0, 2]\<close> and \<open>[3, 5]\<close>, and
  \<open>2 \<ge> 3 - 1\<close>.
\<close>

theorem coverage_lattice_adjacent_counterexample:
  "Suc 0 < length (fst (getCoverageAtY (15 / 2) slottedPolygon (snd (buildEdges slottedPolygon))
                          (fst (buildEdges slottedPolygon)) Map.empty))
   \<and> rstart (fst (getCoverageAtY (15 / 2) slottedPolygon (snd (buildEdges slottedPolygon))
                    (fst (buildEdges slottedPolygon)) Map.empty) ! Suc 0) - 1
       \<le> rend (fst (getCoverageAtY (15 / 2) slottedPolygon (snd (buildEdges slottedPolygon))
                    (fst (buildEdges slottedPolygon)) Map.empty) ! 0)
   \<and> Suc 0 < length (fst (getCoverageAtY 10 slottedPolygon (snd (buildEdges slottedPolygon))
                          (fst (buildEdges slottedPolygon)) Map.empty))
   \<and> rstart (fst (getCoverageAtY 10 slottedPolygon (snd (buildEdges slottedPolygon))
                    (fst (buildEdges slottedPolygon)) Map.empty) ! Suc 0) - 1
       \<le> rend (fst (getCoverageAtY 10 slottedPolygon (snd (buildEdges slottedPolygon))
                    (fst (buildEdges slottedPolygon)) Map.empty) ! 0)"
proof -
  have a: "fst (getCoverageAtY (15 / 2) slottedPolygon (snd (buildEdges slottedPolygon))
                  (fst (buildEdges slottedPolygon)) Map.empty)
             = [\<lparr>rstart = 0, rend = 2\<rparr>, \<lparr>rstart = 3, rend = 5\<rparr>]"
    by code_simp
  have b: "fst (getCoverageAtY 10 slottedPolygon (snd (buildEdges slottedPolygon))
                  (fst (buildEdges slottedPolygon)) Map.empty)
             = [\<lparr>rstart = 0, rend = 2\<rparr>, \<lparr>rstart = 3, rend = 5\<rparr>]"
    by code_simp
  show ?thesis unfolding a b by simp
qed

section \<open>The y-levels\<close>


















section \<open>Rectangle validation\<close>

lemma lowerBound_loop_post:
  assumes "hi \<le> length arr" and "lo \<le> hi"
  shows "\<exists>k. lowerBound_loop arr t lo hi = Some k \<and> lo \<le> k \<and> k \<le> hi
           \<and> (k < hi \<longrightarrow> \<not> arr ! k < t) \<and> (lo < k \<longrightarrow> arr ! (k - 1) < t)"
  using assms
proof (induction "hi - lo" arbitrary: lo hi rule: less_induct)
  case less
  show ?case
  proof (cases "lo < hi")
    case False
    then have "lowerBound_loop arr t lo hi = Some lo"
      by (subst lowerBound_loop.simps) simp
    then show ?thesis using False less.prems by simp
  next
    case True
    let ?mid = "(lo + hi) div 2"
    have mid: "lo \<le> ?mid" "?mid < hi" using True by auto
    then have at: "at_index arr ?mid = Some (arr ! ?mid)"
      using less.prems by (simp add: at_index_def)
    show ?thesis
    proof (cases "arr ! ?mid < t")
      case lt: True
      have eq: "lowerBound_loop arr t lo hi = lowerBound_loop arr t (?mid + 1) hi"
        using True lt at by (subst lowerBound_loop.simps) simp
      have "hi - (?mid + 1) < hi - lo" using mid by simp
      from less.hyps [OF this less.prems(1)] mid
      obtain k where k: "lowerBound_loop arr t (?mid + 1) hi = Some k" "?mid + 1 \<le> k" "k \<le> hi"
        "k < hi \<longrightarrow> \<not> arr ! k < t" "?mid + 1 < k \<longrightarrow> arr ! (k - 1) < t"
        by auto
      have "arr ! (k - 1) < t"
      proof (cases "k = ?mid + 1")
        case True
        then show ?thesis using lt by simp
      next
        case False
        then show ?thesis using k(2,5) by simp
      qed
      then show ?thesis using k mid eq by auto
    next
      case ge: False
      have eq: "lowerBound_loop arr t lo hi = lowerBound_loop arr t lo ?mid"
        using True ge at by (subst lowerBound_loop.simps) simp
      have "?mid - lo < hi - lo" using mid by simp
      moreover have "?mid \<le> length arr" using mid less.prems by simp
      ultimately obtain k where k: "lowerBound_loop arr t lo ?mid = Some k" "lo \<le> k" "k \<le> ?mid"
        "k < ?mid \<longrightarrow> \<not> arr ! k < t" "lo < k \<longrightarrow> arr ! (k - 1) < t"
        using less.hyps [of ?mid lo] mid by auto
      have "\<not> arr ! k < t"
      proof (cases "k = ?mid")
        case True
        then show ?thesis using ge by simp
      next
        case False
        then show ?thesis using k(3,4) by simp
      qed
      then show ?thesis using k mid eq by auto
    qed
  qed
qed

lemma lowerBound_total:
  "\<exists>k. lowerBound arr t = Some k \<and> k \<le> length arr"
  using lowerBound_loop_post [of "length arr" arr 0 t] by (auto simp: lowerBound_def)

lemma lowerBound_sorted:
  assumes "sorted arr"
  shows "\<exists>k. lowerBound arr t = Some k \<and> k \<le> length arr
           \<and> (\<forall>v \<in> set (take k arr). v < t) \<and> (\<forall>v \<in> set (drop k arr). t \<le> v)"
proof -
  from lowerBound_loop_post [of "length arr" arr 0 t]
  obtain k where k: "lowerBound arr t = Some k" "k \<le> length arr"
    "k < length arr \<longrightarrow> \<not> arr ! k < t" "0 < k \<longrightarrow> arr ! (k - 1) < t"
    by (auto simp: lowerBound_def)
  have "\<forall>v \<in> set (take k arr). v < t"
  proof
    fix v assume "v \<in> set (take k arr)"
    then obtain i where i: "i < k" "v = arr ! i"
      using k(2) by (auto simp: in_set_conv_nth)
    then have "arr ! i \<le> arr ! (k - 1)"
      using assms k(2) by (intro sorted_nth_mono) auto
    then show "v < t" using i k(4) by auto
  qed
  moreover have "\<forall>v \<in> set (drop k arr). t \<le> v"
  proof
    fix v assume "v \<in> set (drop k arr)"
    then obtain i where i: "i < length arr - k" "v = arr ! (k + i)"
      by (auto simp: in_set_conv_nth)
    then have "arr ! k \<le> arr ! (k + i)"
      using assms by (intro sorted_nth_mono) auto
    then show "t \<le> v" using i k(3) by auto
  qed
  ultimately show ?thesis using k by blast
qed

lemma lowerBound_takeWhile:
  assumes "sorted arr"
  shows "lowerBound arr t = Some (length (takeWhile (\<lambda>v. v < t) arr))"
proof -
  from lowerBound_sorted [OF assms, of t]
  obtain k where k: "lowerBound arr t = Some k" "k \<le> length arr"
    "\<forall>v \<in> set (take k arr). v < t" "\<forall>v \<in> set (drop k arr). t \<le> v"
    by blast
  have "takeWhile (\<lambda>v. v < t) (take k arr @ drop k arr) = take k arr"
  proof (cases "drop k arr")
    case Nil
    then show ?thesis using k(3) by simp
  next
    case (Cons v vs)
    then have "\<not> v < t" using k(4) by auto
    then show ?thesis using k(3) Cons by (simp add: takeWhile_append2)
  qed
  then have "length (takeWhile (\<lambda>v. v < t) arr) = k" using k(2) by simp
  then show ?thesis using k(1) by simp
qed

lemma sorted_takeWhile_filter:
  "sorted xs \<Longrightarrow> takeWhile (\<lambda>s. s \<le> m) xs = filter (\<lambda>s. s \<le> (m :: rat)) xs"
proof (induction xs)
  case Nil
  show ?case by simp
next
  case (Cons x xs)
  show ?case
  proof (cases "x \<le> m")
    case True
    then show ?thesis using Cons by simp
  next
    case False
    then have "\<forall>s \<in> set xs. \<not> s \<le> m" using Cons.prems by fastforce
    then show ?thesis using False by simp
  qed
qed

lemma window_rows:
  assumes "sorted arr" and "lowerBound arr lo = Some k"
  shows "takeWhile (\<lambda>s. s \<le> hi) (drop k arr) = filter (\<lambda>s. lo \<le> s \<and> s \<le> hi) arr"
proof -
  from lowerBound_sorted [OF assms(1), of lo] assms(2)
  have k: "\<forall>v \<in> set (take k arr). v < lo" "\<forall>v \<in> set (drop k arr). lo \<le> v"
    by auto
  have f1: "filter (\<lambda>s. lo \<le> s \<and> s \<le> hi) (take k arr) = []"
    using k(1) by (auto simp: filter_empty_conv)
  have f2: "filter (\<lambda>s. lo \<le> s \<and> s \<le> hi) (drop k arr) = filter (\<lambda>s. s \<le> hi) (drop k arr)"
    using k(2) by (auto intro: filter_cong)
  have "filter (\<lambda>s. lo \<le> s \<and> s \<le> hi) arr
          = filter (\<lambda>s. lo \<le> s \<and> s \<le> hi) (take k arr)
            @ filter (\<lambda>s. lo \<le> s \<and> s \<le> hi) (drop k arr)"
    by (metis append_take_drop_id filter_append)
  then have "filter (\<lambda>s. lo \<le> s \<and> s \<le> hi) arr = filter (\<lambda>s. s \<le> hi) (drop k arr)"
    by (simp only: f1 f2 append_Nil)
  moreover have "takeWhile (\<lambda>s. s \<le> hi) (drop k arr) = filter (\<lambda>s. s \<le> hi) (drop k arr)"
    using assms(1) by (intro sorted_takeWhile_filter) (simp add: sorted_wrt_drop)
  ultimately show ?thesis by simp
qed

lemma isRectangleValid_loop_scanRows:
  "isRectangleValid_loop minX maxX maxY ys ps vs hs i cache =
     scanRows minX maxX ps vs hs (takeWhile (\<lambda>s. s \<le> maxY) (drop i ys)) cache"
proof (induction "length ys - i" arbitrary: i cache rule: less_induct)
  case less
  show ?case
  proof (cases "i < length ys \<and> ys ! i \<le> maxY")
    case False
    then have "takeWhile (\<lambda>s. s \<le> maxY) (drop i ys) = []"
      by (cases "i < length ys") (simp_all add: takeWhile_eq_Nil_iff hd_drop_conv_nth)
    then show ?thesis using False by (subst isRectangleValid_loop.simps) auto
  next
    case True
    then have d: "drop i ys = ys ! i # drop (Suc i) ys"
      by (simp add: Cons_nth_drop_Suc)
    obtain cov c' where g: "getCoverageAtY (ys ! i) ps vs hs cache = (cov, c')"
      by (cases "getCoverageAtY (ys ! i) ps vs hs cache")
    have IH: "isRectangleValid_loop minX maxX maxY ys ps vs hs (Suc i) c' =
                scanRows minX maxX ps vs hs (takeWhile (\<lambda>s. s \<le> maxY) (drop (Suc i) ys)) c'"
      using True by (intro less) auto
    show ?thesis
      using True g IH by (subst isRectangleValid_loop.simps) (simp add: d Let_def)
  qed
qed

lemma cacheExtends_refl: "cacheExtends ps vs hs cache cache"
  by (simp add: cacheExtends_def)

lemma cacheExtends_fst:
  assumes "cacheExtends ps vs hs c0 c"
  shows "fst (getCoverageAtY s ps vs hs c) = fst (getCoverageAtY s ps vs hs c0)"
proof (cases "c0 s")
  case None
  then have "c s = None \<or> c s = Some (freshCoverage s ps vs hs)"
    using assms unfolding cacheExtends_def by metis
  then show ?thesis using None by (auto simp: getCoverageAtY_miss getCoverageAtY_hit)
next
  case (Some v)
  then have "c s = Some v"
    using assms unfolding cacheExtends_def by (metis option.distinct(1))
  then show ?thesis using Some by (simp add: getCoverageAtY_hit)
qed

lemma cacheExtends_step:
  assumes "cacheExtends ps vs hs c0 c"
  shows "cacheExtends ps vs hs c0 (snd (getCoverageAtY s ps vs hs c))"
proof (cases "c s")
  case None
  then have c0: "c0 s = None"
    using assms unfolding cacheExtends_def by (metis option.distinct(1))
  have "snd (getCoverageAtY s ps vs hs c) = c(s \<mapsto> freshCoverage s ps vs hs)"
    using None by (simp add: getCoverageAtY_miss)
  then show ?thesis using assms c0 unfolding cacheExtends_def by auto
next
  case (Some v)
  then show ?thesis using assms by (simp add: getCoverageAtY_hit)
qed

lemma scanRows_Cons:
  "scanRows minX maxX ps vs hs (s # rows) c =
     (if list_ex (\<lambda>r. rstart r \<le> minX \<and> maxX \<le> rend r) (fst (getCoverageAtY s ps vs hs c))
      then scanRows minX maxX ps vs hs rows (snd (getCoverageAtY s ps vs hs c))
      else (False, snd (getCoverageAtY s ps vs hs c)))"
  by (simp add: case_prod_beta)

lemma scanRows_fst:
  "cacheExtends ps vs hs c0 c \<Longrightarrow>
     fst (scanRows minX maxX ps vs hs rows c) \<longleftrightarrow>
       (\<forall>s \<in> set rows.
          list_ex (\<lambda>r. rstart r \<le> minX \<and> maxX \<le> rend r) (fst (getCoverageAtY s ps vs hs c0)))"
proof (induction rows arbitrary: c)
  case Nil
  show ?case by simp
next
  case (Cons s rows)
  have e: "fst (getCoverageAtY s ps vs hs c) = fst (getCoverageAtY s ps vs hs c0)"
    using Cons.prems by (rule cacheExtends_fst)
  have x: "cacheExtends ps vs hs c0 (snd (getCoverageAtY s ps vs hs c))"
    using Cons.prems by (rule cacheExtends_step)
  show ?case
    using Cons.IH [OF x] by (simp only: scanRows_Cons e) auto
qed

lemma scanRows_dom:
  "sorted rows \<Longrightarrow> cacheExtends ps vs hs c0 c \<Longrightarrow>
     dom (snd (scanRows minX maxX ps vs hs rows c)) =
       dom c \<union> {s \<in> set rows. \<forall>s' \<in> set rows. s' < s \<longrightarrow>
                    list_ex (\<lambda>r. rstart r \<le> minX \<and> maxX \<le> rend r)
                      (fst (getCoverageAtY s' ps vs hs c0))}"
proof (induction rows arbitrary: c)
  case Nil
  show ?case by simp
next
  case (Cons s rows)
  let ?ok = "\<lambda>q. list_ex (\<lambda>r. rstart r \<le> minX \<and> maxX \<le> rend r) (fst (getCoverageAtY q ps vs hs c0))"
  let ?c1 = "snd (getCoverageAtY s ps vs hs c)"
  have e: "fst (getCoverageAtY s ps vs hs c) = fst (getCoverageAtY s ps vs hs c0)"
    using Cons.prems(2) by (rule cacheExtends_fst)
  have x: "cacheExtends ps vs hs c0 ?c1"
    using Cons.prems(2) by (rule cacheExtends_step)
  have d1: "dom ?c1 = insert s (dom c)" by (rule getCoverageAtY_dom)
  have srt: "sorted rows" and low: "\<forall>q \<in> set rows. s \<le> q" using Cons.prems(1) by auto
  show ?case
  proof (cases "?ok s")
    case True
    have "{q \<in> set (s # rows). \<forall>s' \<in> set (s # rows). s' < q \<longrightarrow> ?ok s'}
            = insert s {q \<in> set rows. \<forall>s' \<in> set rows. s' < q \<longrightarrow> ?ok s'}"
      using True low by auto
    then show ?thesis
      using Cons.IH [OF srt x] True d1 by (simp only: scanRows_Cons e) auto
  next
    case False
    have "{q \<in> set (s # rows). \<forall>s' \<in> set (s # rows). s' < q \<longrightarrow> ?ok s'} = {s}"
    proof (intro equalityI subsetI)
      fix q assume q: "q \<in> {q \<in> set (s # rows). \<forall>s' \<in> set (s # rows). s' < q \<longrightarrow> ?ok s'}"
      then have "\<not> s < q" using False by auto
      moreover have "s \<le> q" using q low by auto
      ultimately show "q \<in> {s}" by simp
    next
      fix q assume "q \<in> {s}"
      then show "q \<in> {q \<in> set (s # rows). \<forall>s' \<in> set (s # rows). s' < q \<longrightarrow> ?ok s'}"
        using low by auto
    qed
    then show ?thesis
      using False d1 by (simp only: scanRows_Cons e) auto
  qed
qed

lemma isRectangleValid_scanRows:
  assumes "sorted ys"
  shows "isRectangleValid p1 p2 ys ps vs hs cache =
           Some (scanRows (min (px p1) (px p2)) (max (px p1) (px p2)) ps vs hs
                   (filter (\<lambda>s. of_int (min (py p1) (py p2)) \<le> s \<and> s \<le> of_int (max (py p1) (py p2))) ys)
                   cache)"
proof -
  obtain k where k: "lowerBound ys (of_int (min (py p1) (py p2))) = Some k"
    using lowerBound_total by blast
  show ?thesis
    using k window_rows [OF assms k]
    by (simp add: isRectangleValid_def Let_def isRectangleValid_loop_scanRows)
qed

text \<open>
  Claim C3. On a sorted sample array \<open>isRectangleValid\<close> returns, and it returns true
  exactly when every sample \<open>s\<close> with \<open>minY \<le> s \<le> maxY\<close> has a coverage in which one
  range \<open>r\<close> has \<open>r.start \<le> minX\<close> and \<open>r.end \<ge> maxX\<close>. The scan starts at the
  index the binary search returns, the number of samples below \<open>minY\<close>, and stops at the
  first failing row: the rows added to the cache are those of the window all of whose
  predecessors in the window are covered.
\<close>

theorem isRectangleValid_spec:
  assumes "sorted ySamples"
  shows "\<exists>valid cache'.
           isRectangleValid p1 p2 ySamples ps vs hs cache = Some (valid, cache')
         \<and> (valid \<longleftrightarrow>
              (\<forall>s \<in> set ySamples.
                 of_int (min (py p1) (py p2)) \<le> s \<and> s \<le> of_int (max (py p1) (py p2)) \<longrightarrow>
                 (\<exists>r \<in> set (fst (getCoverageAtY s ps vs hs cache)).
                    rstart r \<le> min (px p1) (px p2) \<and> max (px p1) (px p2) \<le> rend r)))
         \<and> lowerBound ySamples (of_int (min (py p1) (py p2)))
             = Some (length (takeWhile (\<lambda>s. s < of_int (min (py p1) (py p2))) ySamples))
         \<and> dom cache' =
             dom cache \<union>
             {s \<in> set ySamples.
                of_int (min (py p1) (py p2)) \<le> s \<and> s \<le> of_int (max (py p1) (py p2))
                \<and> (\<forall>s' \<in> set ySamples.
                      of_int (min (py p1) (py p2)) \<le> s' \<and> s' < s \<longrightarrow>
                      (\<exists>r \<in> set (fst (getCoverageAtY s' ps vs hs cache)).
                         rstart r \<le> min (px p1) (px p2) \<and> max (px p1) (px p2) \<le> rend r))}"
proof -
  let ?lo = "rat_of_int (min (py p1) (py p2))" and ?hi = "rat_of_int (max (py p1) (py p2))"
  let ?rows = "filter (\<lambda>s. ?lo \<le> s \<and> s \<le> ?hi) ySamples"
  let ?res = "scanRows (min (px p1) (px p2)) (max (px p1) (px p2)) ps vs hs ?rows cache"
  have run: "isRectangleValid p1 p2 ySamples ps vs hs cache = Some (fst ?res, snd ?res)"
    using isRectangleValid_scanRows [OF assms] by simp
  have srt: "sorted ?rows" using assms by (rule sorted_wrt_filter)
  have v: "fst ?res \<longleftrightarrow>
             (\<forall>s \<in> set ySamples. ?lo \<le> s \<and> s \<le> ?hi \<longrightarrow>
                (\<exists>r \<in> set (fst (getCoverageAtY s ps vs hs cache)).
                   rstart r \<le> min (px p1) (px p2) \<and> max (px p1) (px p2) \<le> rend r))"
    unfolding scanRows_fst [OF cacheExtends_refl]
    by (auto simp: list_ex_iff)
  have lb: "lowerBound ySamples ?lo = Some (length (takeWhile (\<lambda>s. s < ?lo) ySamples))"
    using assms by (rule lowerBound_takeWhile)
  have d: "dom (snd ?res) =
             dom cache \<union>
             {s \<in> set ySamples. ?lo \<le> s \<and> s \<le> ?hi
                \<and> (\<forall>s' \<in> set ySamples. ?lo \<le> s' \<and> s' < s \<longrightarrow>
                      (\<exists>r \<in> set (fst (getCoverageAtY s' ps vs hs cache)).
                         rstart r \<le> min (px p1) (px p2) \<and> max (px p1) (px p2) \<le> rend r))}"
    unfolding scanRows_dom [OF srt cacheExtends_refl]
    by (auto simp: list_ex_iff)
  show ?thesis using run v lb d by blast
qed

text \<open>
  On the example polygon the corners (2,3) and (9,7) fail at row 6: the scan starts at
  index 2 and never queries row 7.
\<close>

theorem isRectangleValid_spec_witness:
  "sorted (buildYSamples examplePolygon)
   \<and> map_option fst
       (isRectangleValid \<lparr>px = 2, py = 3\<rparr> \<lparr>px = 9, py = 7\<rparr> (buildYSamples examplePolygon)
          examplePolygon (snd (buildEdges examplePolygon)) (fst (buildEdges examplePolygon))
          Map.empty) = Some False
   \<and> lowerBound (buildYSamples examplePolygon) 3 = Some 2
   \<and> 7 \<notin> dom (snd (the
       (isRectangleValid \<lparr>px = 2, py = 3\<rparr> \<lparr>px = 9, py = 7\<rparr> (buildYSamples examplePolygon)
          examplePolygon (snd (buildEdges examplePolygon)) (fst (buildEdges examplePolygon))
          Map.empty)))"
proof -
  let ?ys = "buildYSamples examplePolygon"
  let ?vs = "snd (buildEdges examplePolygon)" and ?hs = "fst (buildEdges examplePolygon)"
  let ?p1 = "\<lparr>px = 2, py = 3\<rparr>" and ?p2 = "\<lparr>px = 9, py = 7\<rparr>"
  have ys: "?ys = [1, 2, 3, 4, 5, 6, 7]" by code_simp
  have srt: "sorted ?ys" unfolding ys by simp
  have c6: "fst (getCoverageAtY 6 examplePolygon ?vs ?hs Map.empty) = [\<lparr>rstart = 9, rend = 11\<rparr>]"
    by code_simp
  have tw: "length (takeWhile (\<lambda>s. s < 3) [1, 2, 3, 4, 5, 6, 7 :: rat]) = 2" by simp
  from isRectangleValid_spec [OF srt, of ?p1 ?p2 examplePolygon ?vs ?hs Map.empty]
  obtain valid cache' where
    r: "isRectangleValid ?p1 ?p2 ?ys examplePolygon ?vs ?hs Map.empty = Some (valid, cache')"
    and v: "valid \<longleftrightarrow>
              (\<forall>s \<in> set ?ys. 3 \<le> s \<and> s \<le> 7 \<longrightarrow>
                 (\<exists>r \<in> set (fst (getCoverageAtY s examplePolygon ?vs ?hs Map.empty)).
                    rstart r \<le> 2 \<and> 9 \<le> rend r))"
    and lb: "lowerBound ?ys 3 = Some (length (takeWhile (\<lambda>s. s < 3) ?ys))"
    and d: "dom cache' =
              dom (Map.empty :: CoverageCache) \<union>
              {s \<in> set ?ys. 3 \<le> s \<and> s \<le> 7
                 \<and> (\<forall>s' \<in> set ?ys. 3 \<le> s' \<and> s' < s \<longrightarrow>
                       (\<exists>r \<in> set (fst (getCoverageAtY s' examplePolygon ?vs ?hs Map.empty)).
                          rstart r \<le> 2 \<and> 9 \<le> rend r))}"
    by auto
  have bad: "\<not> (\<exists>r \<in> set (fst (getCoverageAtY 6 examplePolygon ?vs ?hs Map.empty)).
                  rstart r \<le> 2 \<and> 9 \<le> rend r)"
    unfolding c6 by simp
  have six: "(6 :: rat) \<in> set ?ys" unfolding ys by simp
  have nv: "\<not> valid"
  proof
    assume valid
    with v six have "\<exists>r \<in> set (fst (getCoverageAtY 6 examplePolygon ?vs ?hs Map.empty)).
                  rstart r \<le> 2 \<and> 9 \<le> rend r" by auto
    with bad show False ..
  qed
  have "7 \<notin> dom cache'"
  proof
    assume "7 \<in> dom cache'"
    with d six have "\<exists>r \<in> set (fst (getCoverageAtY 6 examplePolygon ?vs ?hs Map.empty)).
                  rstart r \<le> 2 \<and> 9 \<le> rend r" by auto
    with bad show False ..
  qed
  then show ?thesis using srt r nv lb tw by (simp add: ys)
qed

section \<open>The two searches\<close>

lemma isRectangleValid_total:
  "\<exists>valid cache'. isRectangleValid p1 p2 ys ps vs hs cache = Some (valid, cache')"
proof -
  obtain k where "lowerBound ys (of_int (min (py p1) (py p2))) = Some k"
    using lowerBound_total by blast
  then show ?thesis
    by (simp add: isRectangleValid_def Let_def)
qed

lemma foldl_related:
  assumes "\<And>a b x. R a b \<Longrightarrow> R (f a x) (g b x)" and "R a b"
  shows "R (foldl f a xs) (foldl g b xs)"
  using assms(2) by (induction xs arbitrary: a b) (simp_all add: assms(1))

lemma part2_pair_le:
  assumes "\<exists>a c. st = Some (a, c) \<and> 0 \<le> a \<and> a \<le> m"
  shows "\<exists>a c. part2_pair ps ys vs hs i st j = Some (a, c) \<and> 0 \<le> a \<and> a \<le> part1_pair ps i m j"
proof -
  from assms obtain a c where st: "st = Some (a, c)" and a: "0 \<le> a" "a \<le> m" by blast
  show ?thesis
  proof (cases "i < length ps \<and> j < length ps")
    case False
    then show ?thesis using st a
      by (auto simp: part2_pair_def part1_pair_def at_index_def)
  next
    case True
    obtain valid c' where
      v: "isRectangleValid (ps ! i) (ps ! j) ys ps vs hs c = Some (valid, c')"
      using isRectangleValid_total by blast
    show ?thesis using True st a v
      by (auto simp: part2_pair_def part1_pair_def at_index_def Let_def)
  qed
qed

lemma part2_row_le:
  assumes "\<exists>a c. st = Some (a, c) \<and> 0 \<le> a \<and> a \<le> m"
  shows "\<exists>a c. part2_row ps ys vs hs st i = Some (a, c) \<and> 0 \<le> a \<and> a \<le> part1_row ps m i"
  unfolding part2_row_def part1_row_def
  by (rule foldl_related [where R = "\<lambda>st m. \<exists>a c. st = Some (a, c) \<and> 0 \<le> a \<and> a \<le> m",
        OF part2_pair_le assms])

lemma part2_search_le:
  "\<exists>a c. foldl (part2_row ps ys vs hs) (Some (0, Map.empty)) is = Some (a, c)
          \<and> 0 \<le> a \<and> a \<le> foldl (part1_row ps) 0 is"
proof -
  let ?R = "\<lambda>st m. \<exists>a c. st = Some (a, c :: CoverageCache) \<and> 0 \<le> a \<and> a \<le> (m :: int)"
  have step: "\<And>st m i. ?R st m \<Longrightarrow> ?R (part2_row ps ys vs hs st i) (part1_row ps m i)"
    by (rule part2_row_le)
  have init: "?R (Some (0, Map.empty)) 0" by simp
  show ?thesis
    by (rule foldl_related [where R = ?R and f = "part2_row ps ys vs hs" and g = "part1_row ps",
          OF step init])
qed

text \<open>
  Claim C9. For every point list \<open>part2\<close> returns and its result is at most that of
  \<open>part1\<close>: both loops run over the same pairs with the same area, \<open>part2\<close> counting
  only the validated ones; with fewer than two points both return 0.
\<close>

theorem part2_le_part1:
  "(\<exists>a. part2 points = Some a \<and> 0 \<le> a \<and> a \<le> part1 points)
   \<and> (length points \<le> 1 \<longrightarrow> part1 points = 0 \<and> part2 points = Some 0)"
proof
  obtain hs vs where e: "buildEdges points = (hs, vs)" by (cases "buildEdges points")
  from part2_search_le [of points "buildYSamples points" vs hs "[0 ..< length points]"]
  show "\<exists>a. part2 points = Some a \<and> 0 \<le> a \<and> a \<le> part1 points"
    by (auto simp: part2_def part1_def e Let_def)
next
  show "length points \<le> 1 \<longrightarrow> part1 points = 0 \<and> part2 points = Some 0"
  proof
    assume "length points \<le> 1"
    then consider "points = []" | p where "points = [p]"
      by (cases points) (auto simp: length_Suc_conv)
    then show "part1 points = 0 \<and> part2 points = Some 0"
    proof cases
      case 1
      then show ?thesis by (simp add: part1_def part2_def buildEdges_def buildYSamples_def uniqueY_def)
    next
      case 2
      then show ?thesis
        by (simp add: part1_def part1_row_def part2_def part2_row_def buildEdges_def
            split: prod.splits)
    qed
  qed
qed

text \<open>
  The theorem at a single point and at the slotted polygon.
\<close>

theorem part2_le_part1_witness:
  "length [\<lparr>px = 4, py = 2\<rparr>] \<le> 1
   \<and> part1 [\<lparr>px = 4, py = 2\<rparr>] = 0 \<and> part2 [\<lparr>px = 4, py = 2\<rparr>] = Some 0
   \<and> part2 slottedPolygon = Some 33 \<and> (33 :: int) \<le> part1 slottedPolygon"
proof -
  have l: "length [\<lparr>px = 4, py = 2\<rparr>] \<le> 1" by simp
  have s: "part2 slottedPolygon = Some 33" by code_simp
  from part2_le_part1 [of "[\<lparr>px = 4, py = 2\<rparr>]"] l
  have 1: "part1 [\<lparr>px = 4, py = 2\<rparr>] = 0 \<and> part2 [\<lparr>px = 4, py = 2\<rparr>] = Some 0" by blast
  from part2_le_part1 [of slottedPolygon] s
  have 2: "(33 :: int) \<le> part1 slottedPolygon" by auto
  show ?thesis using l s 1 2 by blast
qed

text \<open>
  Claim C1. On the polygon (7,1), (11,1), (11,7), (9,7), (9,5), (2,5), (2,3), (7,3) the
  unconstrained search \<open>part1\<close> returns 50 and the polygon-constrained search
  \<open>part2\<close> returns 24.
\<close>

theorem example_answers: "part1 examplePolygon = 50 \<and> part2 examplePolygon = Some 24"
  by code_simp




























end
